theory Spec2Isabelle
  imports Main "HOL-Library.List_Lexorder" "HOL-Library.Word" "HOL-Library.AList"
    "HOL-Library.Multiset"
begin

section \<open>Text\<close>

text \<open>
  A Python \<open>str\<close> is a sequence of Unicode code points. A code point is a natural
  number; \<open>ustr\<close> turns an ASCII literal into such a text. Python compares strings
  lexicographically by code point, which is the order of \<open>HOL-Library.List_Lexorder\<close>.
\<close>

type_synonym pystr = "nat list"

definition ustr :: "string \<Rightarrow> pystr" where
  "ustr s = map of_char s"

section \<open>Regular expressions as Python's \<open>re\<close> runs them\<close>

text \<open>
  The three patterns of \<open>extract_operations\<close> use literals, character classes,
  concatenation, alternation, the greedy quantifiers \<open>?\<close>, \<open>*\<close>, \<open>+\<close> and one
  capturing group. \<open>re\<close> is a backtracking matcher: alternatives are tried left to
  right, a greedy quantifier tries the longest repetition first. \<open>matches r s c\<close>
  lists every way \<open>r\<close> can match a prefix of \<open>s\<close>, in the order the backtracking
  matcher tries them, each as the unread rest of \<open>s\<close> and the group's capture; the
  match \<open>re\<close> reports is the first of the list.
\<close>

datatype regex =
    Eps
  | In "(nat \<times> nat) list"
  | NotIn "(nat \<times> nat) list"
  | Seq regex regex
  | Alt regex regex
  | Star regex
  | Group regex

definition in_ranges :: "(nat \<times> nat) list \<Rightarrow> nat \<Rightarrow> bool" where
  "in_ranges rs x = list_ex (\<lambda>(lo, hi). lo \<le> x \<and> x \<le> hi) rs"

fun matches :: "regex \<Rightarrow> pystr \<Rightarrow> pystr option \<Rightarrow> (pystr \<times> pystr option) list" where
  "matches Eps s c = [(s, c)]"
| "matches (In rs) s c =
     (case s of [] \<Rightarrow> [] | x # s' \<Rightarrow> if in_ranges rs x then [(s', c)] else [])"
| "matches (NotIn rs) s c =
     (case s of [] \<Rightarrow> [] | x # s' \<Rightarrow> if in_ranges rs x then [] else [(s', c)])"
| "matches (Seq r1 r2) s c =
     concat (map (\<lambda>(s1, c1). matches r2 s1 c1) (matches r1 s c))"
| "matches (Alt r1 r2) s c = matches r1 s c @ matches r2 s c"
| "matches (Star r) s c =
     concat (map (\<lambda>(s1, c1). if length s1 < length s then matches (Star r) s1 c1 else [])
                 (matches r s c)) @ [(s, c)]"
| "matches (Group r) s c =
     map (\<lambda>(s1, c1). (s1, Some (take (length s - length s1) s))) (matches r s c)"

definition Opt :: "regex \<Rightarrow> regex" where
  "Opt r = Alt r Eps"

definition Plus :: "regex \<Rightarrow> regex" where
  "Plus r = Seq r (Star r)"

fun cat :: "regex list \<Rightarrow> regex" where
  "cat [] = Eps"
| "cat [r] = r"
| "cat (r # rs) = Seq r (cat rs)"

definition lit :: "char \<Rightarrow> regex" where
  "lit ch = In [(of_char ch, of_char ch)]"

text \<open>
  Under \<open>re.IGNORECASE\<close> a literal ASCII letter matches both of its cases. (For the
  letters \<open>i\<close>, \<open>s\<close> and \<open>k\<close> Python adds non-ASCII code points; no literal of the
  three patterns is one of them.) A character with no case matches itself only.
\<close>

definition swapcase :: "nat \<Rightarrow> nat" where
  "swapcase x = (if 65 \<le> x \<and> x \<le> 90 then x + 32
                 else if 97 \<le> x \<and> x \<le> 122 then x - 32 else x)"

definition lit_ic :: "char \<Rightarrow> regex" where
  "lit_ic ch = In [(of_char ch, of_char ch), (swapcase (of_char ch), swapcase (of_char ch))]"

definition str_ic :: "string \<Rightarrow> regex" where
  "str_ic s = cat (map lit_ic s)"

fun has_group :: "regex \<Rightarrow> bool" where
  "has_group (Group r) = True"
| "has_group (Seq r1 r2) = (has_group r1 \<or> has_group r2)"
| "has_group (Alt r1 r2) = (has_group r1 \<or> has_group r2)"
| "has_group (Star r) = has_group r"
| "has_group r = False"

text \<open>
  What \<open>re.findall\<close> puts in its list for one match: the text of the group when the
  pattern has one (the empty string when the group took no part), the whole match
  otherwise.
\<close>

definition token :: "regex \<Rightarrow> pystr \<Rightarrow> pystr \<times> pystr option \<Rightarrow> pystr" where
  "token r s m =
     (if has_group r then (case snd m of None \<Rightarrow> [] | Some t \<Rightarrow> t)
      else take (length s - length (fst m)) s)"

text \<open>
  \<open>re.findall\<close> scans from left to right: at each position it takes the first match
  there, or moves one character on when there is none, and goes on from the end of the
  match. After an empty match the next match at the same position must be non-empty
  (\<open>adv\<close>); the end of the text is a position as well.
\<close>

function findall_from :: "regex \<Rightarrow> pystr \<Rightarrow> bool \<Rightarrow> pystr list" where
  "findall_from r s adv =
     (case find (\<lambda>(s1, c1). \<not> adv \<or> length s1 < length s) (matches r s None) of
        Some m \<Rightarrow>
          token r s m #
            (if length (fst m) < length s then findall_from r (fst m) False
             else findall_from r s True)
      | None \<Rightarrow> (case s of [] \<Rightarrow> [] | x # s' \<Rightarrow> findall_from r s' False))"
  by pat_completeness auto
termination
proof (relation "measure (\<lambda>(r, s, adv). 2 * length s + (if adv then 0 else 1))")
  show "wf (measure (\<lambda>(r, s, adv). 2 * length s + (if adv then 0 else 1)))"
    by simp
next
  fix r :: regex and s :: pystr and adv :: bool and m
  assume "find (\<lambda>(s1, c1). \<not> adv \<or> length s1 < length s) (matches r s None) = Some m"
    and "length (fst m) < length s"
  then show "((r, fst m, False), (r, s, adv))
      \<in> measure (\<lambda>(r, s, adv). 2 * length s + (if adv then 0 else 1))"
    by simp
next
  fix r :: regex and s :: pystr and adv :: bool and m
  assume f: "find (\<lambda>(s1, c1). \<not> adv \<or> length s1 < length s) (matches r s None) = Some m"
    and n: "\<not> length (fst m) < length s"
  from f have "\<not> adv \<or> length (fst m) < length s"
    by (auto simp: find_Some_iff)
  with n have "\<not> adv" by simp
  then show "((r, s, True), (r, s, adv))
      \<in> measure (\<lambda>(r, s, adv). 2 * length s + (if adv then 0 else 1))"
    by simp
next
  fix r :: regex and s :: pystr and adv :: bool and x s'
  assume "s = x # s'"
  then show "((r, s', False), (r, s, adv))
      \<in> measure (\<lambda>(r, s, adv). 2 * length s + (if adv then 0 else 1))"
    by simp
qed

definition findall :: "regex \<Rightarrow> pystr \<Rightarrow> pystr list" where
  "findall r s = findall_from r s False"

section \<open>The three patterns of \<open>extract_operations\<close>\<close>

text \<open>Character classes, as lists of code point ranges.\<close>

definition quotes :: "(nat \<times> nat) list" where
  "quotes = [(34, 34), (39, 39)]"

text \<open>
  \<open>\\s\<close> on a \<open>str\<close> pattern is Unicode whitespace: the code points for which
  \<open>str.isspace\<close> holds.
\<close>

definition whitespace :: "(nat \<times> nat) list" where
  "whitespace = [(9, 13), (28, 32), (133, 133), (160, 160), (5760, 5760), (8192, 8202),
     (8232, 8233), (8239, 8239), (8287, 8287), (12288, 12288)]"

definition letters :: "(nat \<times> nat) list" where
  "letters = [(of_char CHR ''a'', of_char CHR ''z''), (of_char CHR ''A'', of_char CHR ''Z'')]"

definition digits :: "(nat \<times> nat) list" where
  "digits = [(of_char CHR ''0'', of_char CHR ''9'')]"

definition underscore :: "(nat \<times> nat) list" where
  "underscore = [(of_char CHR ''_'', of_char CHR ''_'')]"

definition dot :: "(nat \<times> nat) list" where
  "dot = [(of_char CHR ''.'', of_char CHR ''.'')]"

text \<open>
  With \<open>re.IGNORECASE\<close> on a \<open>str\<close> pattern the ranges \<open>a-z\<close> and \<open>A-Z\<close> match
  the 52 ASCII letters and four more letters whose case mapping is an ASCII letter:
  U+0130, U+0131, U+017F and U+212A (documented with the flag in the \<open>re\<close> module).
\<close>

definition letters_ic :: "(nat \<times> nat) list" where
  "letters_ic = letters @ [(0x130, 0x131), (0x17F, 0x17F), (0x212A, 0x212A)]"

text \<open>\<^verbatim>\<open>name["\']?\s*[:=]\s*["\']?([^"\']+)["\']?\<close> with \<open>re.IGNORECASE\<close>\<close>

definition pattern1 :: regex where
  "pattern1 = cat [str_ic ''name'', Opt (In quotes), Star (In whitespace),
     In [(of_char CHR '':'', of_char CHR '':''), (of_char CHR ''='', of_char CHR ''='')],
     Star (In whitespace), Opt (In quotes), Group (Plus (NotIn quotes)), Opt (In quotes)]"

text \<open>\<^verbatim>\<open>[a-zA-Z_][a-zA-Z0-9_.]*\.[a-zA-Z0-9_.]+\<close>\<close>

definition pattern2 :: regex where
  "pattern2 = cat [In (letters @ underscore), Star (In (letters @ digits @ underscore @ dot)),
     lit CHR ''.'', Plus (In (letters @ digits @ underscore @ dot))]"

text \<open>
  \<^verbatim>\<open>(?:COMP_NODE|COLL_COMM_NODE|COMP|COMM)[^a-zA-Z]*([a-zA-Z_][a-zA-Z0-9_.]*)\<close>
  with \<open>re.IGNORECASE\<close>
\<close>

definition pattern3 :: regex where
  "pattern3 = cat [Alt (str_ic ''COMP_NODE'') (Alt (str_ic ''COLL_COMM_NODE'')
       (Alt (str_ic ''COMP'') (str_ic ''COMM''))),
     Star (NotIn letters_ic),
     Group (Seq (In (letters_ic @ underscore))
                (Star (In (letters_ic @ digits @ underscore @ dot))))]"

section \<open>The world outside the script\<close>










section \<open>\<open>extract_strings_from_binary\<close>\<close>





section \<open>\<open>extract_operations\<close>\<close>





section \<open>\<open>find_et_files\<close>\<close>



section \<open>\<open>main\<close>\<close>

text \<open>\<open>op.split('.')\<close> and \<open>'.'.join(parts)\<close>.\<close>

fun split_acc :: "nat \<Rightarrow> pystr \<Rightarrow> pystr \<Rightarrow> pystr list" where
  "split_acc sep cur [] = [rev cur]"
| "split_acc sep cur (x # xs) =
     (if x = sep then rev cur # split_acc sep [] xs else split_acc sep (x # cur) xs)"

definition split_dot :: "pystr \<Rightarrow> pystr list" where
  "split_dot s = split_acc (of_char CHR ''.'') [] s"

fun join_dot :: "pystr list \<Rightarrow> pystr" where
  "join_dot [] = []"
| "join_dot [p] = p"
| "join_dot (p # ps) = p @ of_char CHR ''.'' # join_dot ps"













section \<open>Words for stating what the patterns match\<close>



section \<open>A small world for concrete runs\<close>




section \<open>Evaluation\<close>

text \<open>
  The equations of \<open>matches\<close> at \<open>Star\<close> and of \<open>findall_from\<close> call themselves: they are
  taken out of the simpset and given by name where a term is to be evaluated or unfolded.
\<close>

lemmas matches_Star = matches.simps(6)

lemmas findall_from_unfold = findall_from.simps

declare matches.simps(6) [simp del]

declare findall_from.simps [simp del]

lemmas regex_ev = pattern3_def pattern2_def pattern1_def findall_def str_ic_def lit_ic_def lit_def
  swapcase_def Opt_def Plus_def in_ranges_def token_def letters_ic_def letters_def digits_def
  underscore_def dot_def quotes_def whitespace_def matches_Star findall_from_unfold



section \<open>The unique operation set and the count table\<close>






section \<open>Reading the file\<close>




section \<open>Resolving the path\<close>




section \<open>The run of the script\<close>















section \<open>Grouping by prefix\<close>


lemma split_acc_nodot: "sep \<notin> set s \<Longrightarrow> split_acc sep cur s = [rev cur @ s]"
  by (induction s arbitrary: cur) auto

lemma join_dot_Cons: "ps \<noteq> [] \<Longrightarrow> join_dot (p # ps) = p @ of_char CHR ''.'' # join_dot ps"
  by (cases ps) auto

lemma split_acc_ne: "split_acc sep cur s \<noteq> []"
  by (induction s arbitrary: cur) auto

lemma join_split_acc: "join_dot (split_acc (of_char CHR ''.'') cur s) = rev cur @ s"
  by (induction s arbitrary: cur) (auto simp: join_dot_Cons split_acc_ne)

lemma join_split_dot: "join_dot (split_dot s) = s"
  by (simp only: split_dot_def join_split_acc rev.simps append_Nil)








section \<open>What the backtracking matcher finds\<close>

text \<open>
  Facts about \<open>matches\<close> for any pattern: a result is a suffix of the input; the first
  result of a sequence comes from some result of its first part, from the first one when
  the second part cannot fail; the results of a class, of an optional class and of a
  repeated class, and the first result of a repeated class, which is the longest.
\<close>

lemma concat_map_hd:
  "concat (map f xs) = y # ys \<Longrightarrow> \<exists>x \<in> set xs. \<exists>zs. f x = y # zs"
proof (induction xs)
  case Nil
  then show ?case by simp
next
  case (Cons x xs)
  then show ?case by (cases "f x") auto
qed

lemma matches_suffix: "(s1, c1) \<in> set (matches r s c) \<Longrightarrow> \<exists>w. s = w @ s1"
proof (induction r s c arbitrary: s1 c1 rule: matches.induct)
  case (1 s c)
  then show ?case by simp
next
  case (2 rs s c)
  then show ?case by (cases s) (auto split: if_splits)
next
  case (3 rs s c)
  then show ?case by (cases s) (auto split: if_splits)
next
  case (4 r1 r2 s c)
  from 4(3) obtain s0 c0 where a: "(s0, c0) \<in> set (matches r1 s c)"
    and b: "(s1, c1) \<in> set (matches r2 s0 c0)"
    by auto
  from 4(1) [OF a] obtain w where "s = w @ s0" by blast
  moreover from 4(2) [OF a refl b] obtain v where "s0 = v @ s1" by blast
  ultimately have "s = (w @ v) @ s1" by simp
  then show ?case by blast
next
  case (5 r1 r2 s c)
  then show ?case by auto
next
  case (6 r s c)
  from 6(3) [unfolded matches_Star [of r s c]] consider "(s1, c1) = (s, c)"
    | s0 c0 where "(s0, c0) \<in> set (matches r s c)" "length s0 < length s"
        "(s1, c1) \<in> set (matches (Star r) s0 c0)"
    by (auto split: if_splits)
  then show ?case
  proof cases
    case 1
    then show ?thesis by simp
  next
    case 2
    from 6(1) [OF 2(1)] obtain w where "s = w @ s0" by blast
    moreover from 6(2) [OF 2(1) refl 2(2) 2(3)] obtain v where "s0 = v @ s1" by blast
    ultimately have "s = (w @ v) @ s1" by simp
    then show ?thesis by blast
  qed
next
  case (7 r s c)
  then show ?case by auto
qed

lemma matches_Seq_hd:
  assumes "matches (Seq r1 r2) s c = m # ms"
  shows "\<exists>s1 c1 ms'. (s1, c1) \<in> set (matches r1 s c) \<and> matches r2 s1 c1 = m # ms'"
  using concat_map_hd [of "\<lambda>(s1, c1). matches r2 s1 c1" "matches r1 s c" m ms] assms
  by auto

lemma matches_Seq_hd_total:
  assumes "matches (Seq r1 r2) s c = m # ms" and "\<And>s' c'. matches r2 s' c' \<noteq> []"
  shows "\<exists>s1 c1 ms1 ms2. matches r1 s c = (s1, c1) # ms1 \<and> matches r2 s1 c1 = m # ms2"
proof (cases "matches r1 s c")
  case Nil
  with assms(1) show ?thesis by simp
next
  case (Cons a as)
  obtain s1 c1 where a: "a = (s1, c1)" by (cases a)
  from assms(2) obtain m' ms2 where r2: "matches r2 s1 c1 = m' # ms2"
    by (cases "matches r2 s1 c1") auto
  with assms(1) Cons a have "m' = m" by simp
  with Cons a r2 show ?thesis by simp
qed

lemma matches_Seq_set:
  "(s2, c2) \<in> set (matches (Seq r1 r2) s c) \<longleftrightarrow>
     (\<exists>s1 c1. (s1, c1) \<in> set (matches r1 s c) \<and> (s2, c2) \<in> set (matches r2 s1 c1))"
  by auto

lemma matches_In_set:
  "(s1, c1) \<in> set (matches (In rs) s c) \<longleftrightarrow> (\<exists>x. s = x # s1 \<and> in_ranges rs x) \<and> c1 = c"
  by (cases s) auto

lemma matches_NotIn_set:
  "(s1, c1) \<in> set (matches (NotIn rs) s c) \<longleftrightarrow> (\<exists>x. s = x # s1 \<and> \<not> in_ranges rs x) \<and> c1 = c"
  by (cases s) auto



lemma matches_Star_ne: "matches (Star r) s c \<noteq> []"
  by (simp add: matches_Star)

lemma matches_Star_In_Cons:
  "matches (Star (In rs)) (x # s) c =
     (if in_ranges rs x then matches (Star (In rs)) s c @ [(x # s, c)] else [(x # s, c)])"
  by (simp add: matches_Star [of "In rs" "x # s"])


lemma matches_Star_Nil:
  "matches (Star (In rs)) [] c = [([], c)]" "matches (Star (NotIn rs)) [] c = [([], c)]"
  by (simp_all add: matches_Star [of _ "[]"])

lemma matches_Star_In_set:
  "(s1, c1) \<in> set (matches (Star (In rs)) s c) \<Longrightarrow>
     c1 = c \<and> (\<exists>w. s = w @ s1 \<and> list_all (in_ranges rs) w)"
proof (induction s)
  case Nil
  then show ?case by (simp add: matches_Star_Nil)
next
  case (Cons x s)
  show ?case
  proof (cases "(s1, c1) = (x # s, c)")
    case True
    then show ?thesis by simp
  next
    case False
    with Cons.prems have "in_ranges rs x \<and> (s1, c1) \<in> set (matches (Star (In rs)) s c)"
      by (cases "in_ranges rs x") (auto simp: matches_Star_In_Cons)
    then have x: "in_ranges rs x" and "(s1, c1) \<in> set (matches (Star (In rs)) s c)"
      by simp_all
    with Cons.IH obtain w where "c1 = c" "s = w @ s1" "list_all (in_ranges rs) w"
      by blast
    with x have "c1 = c \<and> x # s = (x # w) @ s1 \<and> list_all (in_ranges rs) (x # w)"
      by simp
    then show ?thesis by blast
  qed
qed


lemma matches_Star_In_hd:
  "\<exists>ms. matches (Star (In rs)) s c = (dropWhile (in_ranges rs) s, c) # ms"
proof (induction s)
  case Nil
  then show ?case by (simp add: matches_Star_Nil)
next
  case (Cons x s)
  then obtain ms where "matches (Star (In rs)) s c = (dropWhile (in_ranges rs) s, c) # ms"
    by blast
  then show ?case by (simp add: matches_Star_In_Cons)
qed



lemma matches_Star_self: "(s, c) \<in> set (matches (Star r) s c)"
  by (simp add: matches_Star [of r s c])

lemma matches_Star_In_mem:
  "list_all (in_ranges rs) w \<Longrightarrow> (s1, c) \<in> set (matches (Star (In rs)) (w @ s1) c)"
proof (induction w)
  case Nil
  then show ?case by (simp add: matches_Star_self)
next
  case (Cons x w)
  then show ?case by (simp add: matches_Star_In_Cons)
qed

lemma take_takeWhile:
  "take (length (pre @ z) - length (dropWhile P z)) (pre @ z) = pre @ takeWhile P z"
proof -
  have "length z = length (takeWhile P z) + length (dropWhile P z)"
    by (metis length_append takeWhile_dropWhile_id)
  then have "length (pre @ z) - length (dropWhile P z) = length pre + length (takeWhile P z)"
    by simp
  moreover have "take (length (takeWhile P z)) z = takeWhile P z"
    by (metis append_eq_conv_conj takeWhile_dropWhile_id)
  ultimately show ?thesis by simp
qed

lemma list_all_takeWhile: "list_all P (takeWhile P xs)"
  by (induction xs) auto

lemma dropWhile_end: "dropWhile P z = [] \<or> \<not> P (hd (dropWhile P z))"
  by (metis hd_dropWhile)

lemma findall_from_tokens:
  "\<forall>u m ms. matches r u None = m # ms \<longrightarrow> length (fst m) < length u \<Longrightarrow>
   t \<in> set (findall_from r s adv) \<Longrightarrow>
   \<exists>pre u m ms. s = pre @ u \<and> matches r u None = m # ms \<and> t = token r u m"
proof (induction r s adv rule: findall_from.induct)
  case (1 r s adv)
  show ?case
  proof (cases "matches r s None")
    case Nil
    then have f: "find (\<lambda>(s1, c1). \<not> adv \<or> length s1 < length s) (matches r s None) = None"
      by simp
    show ?thesis
    proof (cases s)
      case Nil
      with f have "findall_from r s adv = []"
        by (subst findall_from_unfold) (simp only: option.case list.case)
      with "1.prems"(2) show ?thesis by simp
    next
      case (Cons x s')
      with f have "findall_from r s adv = findall_from r s' False"
        by (subst findall_from_unfold) (simp only: option.case list.case)
      with "1.prems"(2) have "t \<in> set (findall_from r s' False)"
        by simp
      from "1.IH"(1) [OF f Cons "1.prems"(1) this]
      obtain pre u m ms where "s' = pre @ u" "matches r u None = m # ms" "t = token r u m"
        by (elim exE conjE) (rule that)
      with Cons have "s = (x # pre) @ u \<and> matches r u None = m # ms \<and> t = token r u m"
        by simp
      then show ?thesis by blast
    qed
  next
    case (Cons m ms)
    from "1.prems"(1) Cons have l: "length (fst m) < length s"
      by (elim allE impE) assumption+
    then have f: "find (\<lambda>(s1, c1). \<not> adv \<or> length s1 < length s) (matches r s None) = Some m"
      by (simp add: Cons case_prod_unfold)
    from f l have "findall_from r s adv = token r s m # findall_from r (fst m) False"
      by (subst findall_from_unfold) (simp only: option.case if_True)
    with "1.prems"(2) consider "t = token r s m" | "t \<in> set (findall_from r (fst m) False)"
      by auto
    then show ?thesis
    proof cases
      case 1
      with Cons have "s = [] @ s \<and> matches r s None = m # ms \<and> t = token r s m"
        by simp
      then show ?thesis by blast
    next
      case 2
      from "1.IH"(2) [OF f l "1.prems"(1) 2]
      obtain pre u m' ms' where u: "fst m = pre @ u" "matches r u None = m' # ms'"
          "t = token r u m'"
        by (elim exE conjE) (rule that)
      have "(fst m, snd m) \<in> set (matches r s None)"
        by (simp add: Cons)
      then obtain w where "s = w @ fst m"
        using matches_suffix by blast
      with u have "s = (w @ pre) @ u \<and> matches r u None = m' # ms' \<and> t = token r u m'"
        by simp
      then show ?thesis by blast
    qed
  qed
qed

lemma findall_whole:
  assumes "matches r s None = m # ms" and "fst m = []" and "s \<noteq> []"
    and "matches r [] None = []"
  shows "findall r s = [token r s m]"
proof -
  have e: "findall_from r [] False = []"
    using assms(4) by (subst findall_from_unfold) (simp only: find.simps option.case list.case)
  have f: "find (\<lambda>(s1, c1). \<not> False \<or> length s1 < length s) (matches r s None) = Some m"
    using assms(1) by (simp add: case_prod_unfold)
  have l: "length (fst m) < length s"
    using assms(2,3) by simp
  from f l have "findall_from r s False = token r s m # findall_from r (fst m) False"
    by (subst findall_from_unfold) (simp only: option.case if_True)
  with e assms(2) show ?thesis
    by (simp add: findall_def)
qed

subsection \<open>Case-insensitive literals and the group\<close>





subsection \<open>The first match\<close>



lemma concat_map_single: "concat (map (\<lambda>(a, b). [(a, b)]) xs) = xs"
  by (induction xs) auto














section \<open>Pattern 2: dotted identifiers\<close>

lemma pattern2_hd:
  assumes "matches pattern2 s None = m # ms"
  shows "\<exists>h w y z. s = h # w @ 46 # y # z
           \<and> in_ranges (letters @ underscore) h
           \<and> list_all (in_ranges (letters @ digits @ underscore @ dot)) w
           \<and> in_ranges (letters @ digits @ underscore @ dot) y
           \<and> m = (dropWhile (in_ranges (letters @ digits @ underscore @ dot)) z, None)"
proof -
  from assms have "matches (Seq (In (letters @ underscore))
      (Seq (Star (In (letters @ digits @ underscore @ dot)))
        (Seq (In [(46, 46)])
          (Seq (In (letters @ digits @ underscore @ dot))
               (Star (In (letters @ digits @ underscore @ dot))))))) s None = m # ms"
    by (simp add: pattern2_def lit_def Plus_def)
  from matches_Seq_hd [OF this] obtain s1 c1 ms1
    where a1: "(s1, c1) \<in> set (matches (In (letters @ underscore)) s None)"
      and b1: "matches (Seq (Star (In (letters @ digits @ underscore @ dot)))
        (Seq (In [(46, 46)])
          (Seq (In (letters @ digits @ underscore @ dot))
               (Star (In (letters @ digits @ underscore @ dot)))))) s1 c1 = m # ms1"
    by blast
  from matches_Seq_hd [OF b1] obtain s2 c2 ms2
    where a2: "(s2, c2) \<in> set (matches (Star (In (letters @ digits @ underscore @ dot))) s1 c1)"
      and b2: "matches (Seq (In [(46, 46)])
          (Seq (In (letters @ digits @ underscore @ dot))
               (Star (In (letters @ digits @ underscore @ dot))))) s2 c2 = m # ms2"
    by blast
  from matches_Seq_hd [OF b2] obtain s3 c3 ms3
    where a3: "(s3, c3) \<in> set (matches (In [(46, 46)]) s2 c2)"
      and b3: "matches (Seq (In (letters @ digits @ underscore @ dot))
               (Star (In (letters @ digits @ underscore @ dot)))) s3 c3 = m # ms3"
    by blast
  from matches_Seq_hd_total [OF b3 matches_Star_ne] obtain s4 c4 ms4 ms5
    where a4: "matches (In (letters @ digits @ underscore @ dot)) s3 c3 = (s4, c4) # ms4"
      and b4: "matches (Star (In (letters @ digits @ underscore @ dot))) s4 c4 = m # ms5"
    by blast
  from a1 obtain h where h: "s = h # s1" "in_ranges (letters @ underscore) h" "c1 = None"
    by (auto simp: matches_In_set)
  from matches_Star_In_set [OF a2] obtain w
    where w: "s1 = w @ s2" "list_all (in_ranges (letters @ digits @ underscore @ dot)) w" "c2 = c1"
    by blast
  from a3 have d: "s2 = 46 # s3" "c3 = c2"
    by (auto simp: matches_In_set in_ranges_def)
  from a4 obtain y where y: "s3 = y # s4" "in_ranges (letters @ digits @ underscore @ dot) y"
      "c4 = c3"
    by (cases s3) (auto split: if_splits)
  from b4 matches_Star_In_hd [of "letters @ digits @ underscore @ dot" s4 c4]
  have m: "m = (dropWhile (in_ranges (letters @ digits @ underscore @ dot)) s4, c4)"
    by auto
  from h w d y m have "s = h # w @ 46 # y # s4
           \<and> in_ranges (letters @ underscore) h
           \<and> list_all (in_ranges (letters @ digits @ underscore @ dot)) w
           \<and> in_ranges (letters @ digits @ underscore @ dot) y
           \<and> m = (dropWhile (in_ranges (letters @ digits @ underscore @ dot)) s4, None)"
    by simp
  then show ?thesis by blast
qed

lemma pattern2_nonempty:
  "\<forall>u m ms. matches pattern2 u None = m # ms \<longrightarrow> length (fst m) < length u"
proof (intro allI impI)
  fix u m ms
  assume "matches pattern2 u None = m # ms"
  from pattern2_hd [OF this] obtain h w y z
    where "u = h # w @ 46 # y # z"
      and "m = (dropWhile (in_ranges (letters @ digits @ underscore @ dot)) z, None)"
    by (elim exE conjE) (rule that)
  moreover have "length (dropWhile (in_ranges (letters @ digits @ underscore @ dot)) z) \<le> length z"
    by (rule length_dropWhile_le)
  ultimately show "length (fst m) < length u" by simp
qed

lemma pattern2_no_group: "has_group pattern2 = False"
  by (simp add: pattern2_def lit_def Plus_def)

lemma dot_ident: "in_ranges (letters @ digits @ underscore @ dot) 46"
  by (simp add: in_ranges_def letters_def digits_def underscore_def dot_def)

lemma pattern2_sound:
  assumes "t \<in> set (findall pattern2 s)"
  shows "\<exists>pre h w y z post. s = pre @ t @ post \<and> t = h # w @ of_char CHR ''.'' # y # z
           \<and> in_ranges (letters @ underscore) h
           \<and> list_all (in_ranges (letters @ digits @ underscore @ dot)) (w @ y # z)
           \<and> (post = [] \<or> \<not> in_ranges (letters @ digits @ underscore @ dot) (hd post))"
proof -
  from assms have "t \<in> set (findall_from pattern2 s False)"
    by (simp add: findall_def)
  from findall_from_tokens [OF pattern2_nonempty this] obtain pre u m ms
    where s: "s = pre @ u" and u: "matches pattern2 u None = m # ms"
      and t: "t = token pattern2 u m"
    by (elim exE conjE) (rule that)
  from pattern2_hd [OF u] obtain h w y z
    where u': "u = h # w @ 46 # y # z"
      and h: "in_ranges (letters @ underscore) h"
      and w: "list_all (in_ranges (letters @ digits @ underscore @ dot)) w"
      and y: "in_ranges (letters @ digits @ underscore @ dot) y"
      and m: "m = (dropWhile (in_ranges (letters @ digits @ underscore @ dot)) z, None)"
    by (elim exE conjE) (rule that)
  let ?C = "in_ranges (letters @ digits @ underscore @ dot)"
  have "u = (h # w @ [46, y]) @ z"
    by (simp add: u')
  then have "take (length u - length (dropWhile ?C z)) u = (h # w @ [46, y]) @ takeWhile ?C z"
    by (simp only: take_takeWhile)
  with t m have t': "t = h # w @ 46 # y # takeWhile ?C z"
    by (simp add: token_def pattern2_no_group)
  have "z = takeWhile ?C z @ dropWhile ?C z"
    by simp
  with u' t' have "u = t @ dropWhile ?C z"
    by simp
  with s have 1: "s = pre @ t @ dropWhile ?C z"
    by simp
  have 2: "list_all ?C (w @ y # takeWhile ?C z)"
    using w y by (simp add: list_all_takeWhile)
  have 3: "dropWhile ?C z = [] \<or> \<not> ?C (hd (dropWhile ?C z))"
    by (rule dropWhile_end)
  from t' have t'': "t = h # w @ of_char CHR ''.'' # y # takeWhile ?C z"
    by simp
  from 1 t'' h 2 3 have r: "s = pre @ t @ dropWhile ?C z
      \<and> t = h # w @ of_char CHR ''.'' # y # takeWhile ?C z
      \<and> in_ranges (letters @ underscore) h
      \<and> list_all ?C (w @ y # takeWhile ?C z)
      \<and> (dropWhile ?C z = [] \<or> \<not> ?C (hd (dropWhile ?C z)))"
    by (intro conjI)
  show ?thesis
    by (rule exI [of _ pre], rule exI [of _ h], rule exI [of _ w], rule exI [of _ y],
        rule exI [of _ "takeWhile ?C z"], rule exI [of _ "dropWhile ?C z"]) (fact r)
qed

lemma pattern2_complete:
  assumes h: "in_ranges (letters @ underscore) h"
    and a: "list_all (in_ranges (letters @ digits @ underscore @ dot)) (w @ y # z)"
  shows "findall pattern2 (h # w @ of_char CHR ''.'' # y # z) = [h # w @ of_char CHR ''.'' # y # z]"
proof -
  let ?C = "in_ranges (letters @ digits @ underscore @ dot)"
  let ?s = "h # w @ 46 # y # z"
  have p: "pattern2 = Seq (In (letters @ underscore))
      (Seq (Star (In (letters @ digits @ underscore @ dot)))
        (Seq (In [(46, 46)])
          (Seq (In (letters @ digits @ underscore @ dot))
               (Star (In (letters @ digits @ underscore @ dot))))))"
    by (simp add: pattern2_def lit_def Plus_def)
  from a have w: "list_all ?C w" and y: "?C y" and z: "list_all ?C z"
    by simp_all
  have 1: "(w @ 46 # y # z, None) \<in> set (matches (In (letters @ underscore)) ?s None)"
    using h by (simp add: matches_In_set)
  have 2: "(46 # y # z, None) \<in> set (matches (Star (In (letters @ digits @ underscore @ dot)))
      (w @ 46 # y # z) None)"
    using w by (rule matches_Star_In_mem)
  have 3: "(y # z, None) \<in> set (matches (In [(46, 46)]) (46 # y # z) None)"
    by (simp add: matches_In_set in_ranges_def)
  have 4: "(z, None) \<in> set (matches (In (letters @ digits @ underscore @ dot)) (y # z) None)"
    using y by (simp add: matches_In_set)
  have 5: "(z, None) \<in> set (matches (Star (In (letters @ digits @ underscore @ dot))) z None)"
    by (rule matches_Star_self)
  have "(z, None) \<in> set (matches pattern2 ?s None)"
    unfolding p matches_Seq_set using 1 2 3 4 5 by blast
  then obtain m ms where mm: "matches pattern2 ?s None = m # ms"
    by (cases "matches pattern2 ?s None") auto
  from pattern2_hd [OF mm] obtain h' w' y' z'
    where e: "?s = h' # w' @ 46 # y' # z'"
      and m: "m = (dropWhile ?C z', None)"
    by (elim exE conjE) (rule that)
  from e have "w @ 46 # y # z = w' @ 46 # y' # z'"
    by simp
  then have "set (w @ 46 # y # z) = set (w' @ 46 # y' # z')"
    by (rule arg_cong)
  then have "set z' \<subseteq> set (w @ 46 # y # z)"
    by auto
  moreover have "list_all ?C (w @ 46 # y # z)"
    using w y z dot_ident by simp
  ultimately have "list_all ?C z'"
    by (auto simp: list_all_iff)
  then have "dropWhile ?C z' = []"
    by (simp add: list_all_iff)
  with m have f: "fst m = []"
    by simp
  have n: "matches pattern2 [] None = []"
    by (simp add: p)
  have "findall pattern2 ?s = [token pattern2 ?s m]"
    using mm f _ n by (rule findall_whole) simp
  with f show ?thesis
    by (simp add: token_def pattern2_no_group)
qed

text \<open>
  C5, as the code has it. A token of the scan starts with a letter or an underscore and goes
  on with letters, digits, underscores and dots, among them a dot that has at least one
  more of these characters after it; it lies in the text and ends where the run of these
  characters ends. A text of this shape is matched whole, as its only token. (A run that
  starts with a digit or a dot, or whose only dot is its last character, is not of this
  shape.)
\<close>

theorem pattern2_tokens:
  "(t \<in> set (findall pattern2 s) \<longrightarrow>
      (\<exists>pre h w y z post. s = pre @ t @ post \<and> t = h # w @ of_char CHR ''.'' # y # z
           \<and> in_ranges (letters @ underscore) h
           \<and> list_all (in_ranges (letters @ digits @ underscore @ dot)) (w @ y # z)
           \<and> (post = [] \<or> \<not> in_ranges (letters @ digits @ underscore @ dot) (hd post))))
   \<and> (in_ranges (letters @ underscore) h'
        \<and> list_all (in_ranges (letters @ digits @ underscore @ dot)) (w' @ y' # z')
      \<longrightarrow> findall pattern2 (h' # w' @ of_char CHR ''.'' # y' # z')
            = [h' # w' @ of_char CHR ''.'' # y' # z'])"
  using pattern2_sound [of t s] pattern2_complete [of h' w' y' z'] by blast

theorem pattern2_tokens_witness:
  "ustr ''a.b'' \<in> set (findall pattern2 (ustr ''1a.b c''))
   \<and> (\<exists>pre h w y z post. ustr ''1a.b c'' = pre @ ustr ''a.b'' @ post
         \<and> ustr ''a.b'' = h # w @ of_char CHR ''.'' # y # z
         \<and> in_ranges (letters @ underscore) h
         \<and> list_all (in_ranges (letters @ digits @ underscore @ dot)) (w @ y # z)
         \<and> (post = [] \<or> \<not> in_ranges (letters @ digits @ underscore @ dot) (hd post)))
   \<and> in_ranges (letters @ underscore) (of_char CHR ''a'')
   \<and> list_all (in_ranges (letters @ digits @ underscore @ dot)) ([] @ of_char CHR ''b'' # [])
   \<and> findall pattern2 (of_char CHR ''a'' # [] @ of_char CHR ''.'' # of_char CHR ''b'' # [])
       = [of_char CHR ''a'' # [] @ of_char CHR ''.'' # of_char CHR ''b'' # []]"
proof -
  note t = pattern2_tokens [of "ustr ''a.b''" "ustr ''1a.b c''" "of_char CHR ''a''" "[]"
      "of_char CHR ''b''" "[]"]
  have m: "ustr ''a.b'' \<in> set (findall pattern2 (ustr ''1a.b c''))"
    by (simp add: regex_ev ustr_def)
  have h: "in_ranges (letters @ underscore) (of_char CHR ''a'')"
    by (simp add: in_ranges_def letters_def)
  have l: "list_all (in_ranges (letters @ digits @ underscore @ dot)) ([] @ of_char CHR ''b'' # [])"
    by (simp add: in_ranges_def letters_def)
  note e = t [THEN conjunct1, THEN mp, OF m]
  note f = t [THEN conjunct2, THEN mp, OF conjI [OF h l]]
  from m e h l f show ?thesis by (intro conjI)
qed

text \<open>
  C5, as it is written, fails: \<open>0.5\<close> is a run of identifier characters with a \<open>.\<close>
  separator, and the scan finds nothing in it; nor in \<open>a.\<close>, whose dot has nothing after
  it.
\<close>

theorem pattern2_any_run_counterexample:
  "list_all (in_ranges (letters @ digits @ underscore)) (ustr ''0'')
   \<and> list_all (in_ranges (letters @ digits @ underscore)) (ustr ''5'')
   \<and> findall pattern2 (ustr ''0'' @ of_char CHR ''.'' # ustr ''5'') = []
   \<and> findall pattern2 (ustr ''a.'') = []"
  by (simp add: regex_ev ustr_def)

section \<open>Pattern 3: node markers\<close>













section \<open>Pattern 1: labeled fields\<close>

















end
